theory Spec2Isabelle
  imports Main "HOL-Library.Multiset"
begin

section \<open>The quiz session of cli-quiz (package quiz)\<close>

text \<open>
  The package holds one state machine, \<open>Session\<close>, driven by \<open>Answer\<close> and
  \<open>BringToFront\<close>. Every public method takes the session's mutex for its whole body, so
  each call is one atomic transition; the model passes the session in and returns the new one.
  A run-time panic of Go (an index out of range) is the value \<open>Inl IndexOutOfRange\<close>.
  Go's \<open>int\<close> is modelled by \<open>int\<close>: the two counters are bounded by the number of
  questions in every reachable session (lemma \<open>reachable_counts_bounded\<close>), so they never
  wrap.
\<close>

subsection \<open>Go's strings: byte sequences, and the functions of package strings\<close>

text \<open>
  A Go string is a sequence of bytes, here \<open>string\<close> (a list of 8-bit \<open>char\<close>).
  \<open>strings.TrimSpace\<close>, \<open>strings.ToUpper\<close> and \<open>strings.EqualFold\<close> belong to Go's
  standard library. \<open>TrimSpace\<close> below is the library function on every string.
  \<open>ToUpper\<close> and \<open>EqualFold\<close> are the paths the library takes on ASCII text; on a
  string holding a byte \<open>\<ge> 0x80\<close> the library goes through the case tables of package
  \<open>unicode\<close>, which are no part of this development, and the two definitions are exact
  only where those tables are not needed. Statements about the queue, the flags and the counters
  hold whatever the grading of an answer turns out to be.
\<close>

definition isASCII :: "string \<Rightarrow> bool" where
  "isASCII s = list_all (\<lambda>c. (of_char c :: int) < 128) s"

text \<open>The conversion \<open>string(r)\<close> of a rune: the UTF-8 encoding of the code point, and
  the encoding of U+FFFD for a value that is no code point.\<close>

definition string_of_rune :: "int \<Rightarrow> string" where
  "string_of_rune r =
     (if r < 0 \<or> 1114111 < r \<or> (55296 \<le> r \<and> r \<le> 57343)
      then [char_of (239::int), char_of (191::int), char_of (189::int)]
      else if r < 128 then [char_of r]
      else if r < 2048 then [char_of (192 + r div 64), char_of (128 + r mod 64)]
      else if r < 65536 then
        [char_of (224 + r div 4096), char_of (128 + (r div 64) mod 64), char_of (128 + r mod 64)]
      else
        [char_of (240 + r div 262144), char_of (128 + (r div 4096) mod 64),
         char_of (128 + (r div 64) mod 64), char_of (128 + r mod 64)])"

text \<open>
  \<open>strings.TrimSpace\<close> removes leading and trailing white space "as defined by Unicode":
  the runes for which \<open>unicode.IsSpace\<close> holds, which are tab, line feed, vertical tab, form
  feed, carriage return, space, U+0085, U+00A0 and the other code points with the property
  White_Space: U+1680, U+2000 to U+200A, U+2028, U+2029, U+202F, U+205F, U+3000.

  The library decodes one rune at a time, from the front and then from the back, and stops at
  the first rune that is no white space. Its UTF-8 decoder yields a code point only for the
  shortest encoding of it and reads every other byte sequence as U+FFFD, which is no white
  space. So a white-space rune is decoded at the front exactly when the string starts with the
  encoding of one, and at the back exactly when the string ends with one: \<open>strip\<close> removes
  such byte sequences from the front as long as there is one, and \<open>TrimSpace\<close> applies it
  to the front and, on the reversed string with the reversed encodings, to the back.
\<close>

definition spaceRunes :: "int list" where
  "spaceRunes =
     [0x09, 0x0A, 0x0B, 0x0C, 0x0D, 0x20, 0x85, 0xA0, 0x1680,
      0x2000, 0x2001, 0x2002, 0x2003, 0x2004, 0x2005, 0x2006, 0x2007, 0x2008, 0x2009, 0x200A,
      0x2028, 0x2029, 0x202F, 0x205F, 0x3000]"

definition spaceEncodings :: "string list" where
  "spaceEncodings = map string_of_rune spaceRunes"

function strip :: "string list \<Rightarrow> string \<Rightarrow> string" where
  "strip encs s =
     (case find (\<lambda>e. e \<noteq> [] \<and> take (length e) s = e) encs of
        None \<Rightarrow> s
      | Some e \<Rightarrow> strip encs (drop (length e) s))"
  by pat_completeness auto
termination
proof (relation "measure (\<lambda>(encs, s). length s)")
  show "wf (measure (\<lambda>(encs, s). length s))" by simp
next
  fix encs :: "string list" and s e :: string
  assume "find (\<lambda>e. e \<noteq> [] \<and> take (length e) s = e) encs = Some e"
  then have "e \<noteq> []" and t: "take (length e) s = e" by (auto simp: find_Some_iff)
  from t have "length (take (length e) s) = length e" by simp
  then have "length e \<le> length s" by simp
  with \<open>e \<noteq> []\<close> show "((encs, drop (length e) s), (encs, s)) \<in> measure (\<lambda>(encs, s). length s)"
    by (cases e) simp_all
qed

declare strip.simps [simp del]

definition TrimSpace :: "string \<Rightarrow> string" where
  "TrimSpace s = rev (strip (map rev spaceEncodings) (rev (strip spaceEncodings s)))"

text \<open>\<open>strings.ToUpper\<close> on a string of ASCII bytes: the letters \<open>a\<close> to \<open>z\<close> become
  \<open>A\<close> to \<open>Z\<close>. (On other strings the library maps every rune through
  \<open>unicode.ToUpper\<close> and writes invalid bytes as U+FFFD; here a byte \<open>\<ge> 0x80\<close> is
  kept.)\<close>

definition toUpperByte :: "char \<Rightarrow> char" where
  "toUpperByte c =
     (let n = (of_char c :: int) in if 97 \<le> n \<and> n \<le> 122 then char_of (n - 32) else c)"

definition ToUpper :: "string \<Rightarrow> string" where
  "ToUpper s = map toUpperByte s"

text \<open>\<open>strings.EqualFold\<close>, the loop it runs while both strings hold ASCII bytes: equal
  bytes match; otherwise the smaller byte must be an upper-case letter and the larger one its
  lower-case form; when one string ends, both must have ended. (At a byte \<open>\<ge> 0x80\<close> the
  library compares runes under Unicode simple case folding; here such a byte matches only
  itself.) With an empty first string the library returns whether the second is empty too, as
  the first and the third equation say.\<close>

fun EqualFold :: "string \<Rightarrow> string \<Rightarrow> bool" where
  "EqualFold [] [] = True"
| "EqualFold (sr # s) (tr # t) =
     (if tr = sr then EqualFold s t
      else
        let a = (of_char sr :: int); b = (of_char tr :: int);
            lo = min a b; hi = max a b
        in if 65 \<le> lo \<and> lo \<le> 90 \<and> hi = lo + 32 then EqualFold s t else False)"
| "EqualFold _ _ = False"

subsection \<open>Data model\<close>

text \<open>The fields \<open>Domain\<close> and \<open>Answer\<close> of \<open>Question\<close> are \<open>Domain_q\<close> and
  \<open>Answer_q\<close> here (\<open>Answer\<close> is also the method of \<open>Session\<close>); the function
  \<open>normalize\<close> is \<open>normalize_answer\<close>.\<close>

record Question =
  Domain_q :: int
  Prompt :: string
  Options :: "string \<rightharpoonup> string"
  Answer_q :: string

record Result =
  UserAnswer :: string
  Correct :: bool

text \<open>The field \<open>mu\<close> (the mutex) has no counterpart: a method call is one transition.\<close>

record Session =
  Questions :: "Question list"
  attempted :: "bool list"
  completed :: "bool list"
  results :: "Result list"
  queue :: "int list"
  completedCount :: int
  attemptedCount :: int

datatype fault = IndexOutOfRange

text \<open>Go's zero values \<open>Question{}\<close> and \<open>Result{}\<close>.\<close>

definition Question_zero :: Question where
  "Question_zero = \<lparr>Domain_q = 0, Prompt = [], Options = Map.empty, Answer_q = []\<rparr>"

definition Result_zero :: Result where
  "Result_zero = \<lparr>UserAnswer = [], Correct = False\<rparr>"

definition in_range :: "int \<Rightarrow> 'a list \<Rightarrow> bool" where
  "in_range i xs = (0 \<le> i \<and> i < int (length xs))"

subsection \<open>Operations\<close>

text \<open>\<open>rand.Perm(n)\<close> returns a permutation of the integers of \<open>[0, n)\<close>; which one is
  not determined, so \<open>NewSession\<close> takes it as an argument and \<open>isPerm\<close> is what the
  library promises about it.\<close>

definition isPerm :: "nat \<Rightarrow> int list \<Rightarrow> bool" where
  "isPerm n p = (distinct p \<and> set p = {0..<int n})"

definition NewSession :: "Question list \<Rightarrow> int list \<Rightarrow> Session" where
  "NewSession qs p =
     \<lparr>Questions = qs,
      attempted = replicate (length qs) False,
      completed = replicate (length qs) False,
      results = replicate (length qs) Result_zero,
      queue = p,
      completedCount = 0,
      attemptedCount = 0\<rparr>"

definition Current :: "Session \<Rightarrow> fault + (int \<times> Question \<times> bool)" where
  "Current s =
     (case queue s of
        [] \<Rightarrow> Inr (- 1, Question_zero, False)
      | idx # _ \<Rightarrow>
          if in_range idx (Questions s) then Inr (idx, Questions s ! nat idx, True)
          else Inl IndexOutOfRange)"

definition normalize_answer :: "string \<Rightarrow> int" where
  "normalize_answer ans =
     (let ans' = TrimSpace ans
      in if ans' = [] then 0 else of_char (ToUpper ans' ! 0))"

text \<open>
  \<open>Answer\<close> returns Go's triple (result, finished, error) and the session after the call;
  the error is \<open>None\<close> for \<open>nil\<close>. The index checks are the ones Go makes, in the order
  of the body: \<open>s.Questions[idx]\<close>, then \<open>s.completed[idx]\<close> (read only when the answer
  is correct), \<open>s.attempted[idx]\<close>, and \<open>s.results[idx]\<close> (written only on a first
  attempt).
\<close>

definition Answer :: "Session \<Rightarrow> string \<Rightarrow> fault + (Result \<times> bool \<times> string option \<times> Session)" where
  "Answer s answer =
     (case queue s of
        [] \<Rightarrow> Inr (Result_zero, True, Some ''quiz already completed'', s)
      | idx # rest \<Rightarrow>
          let s0 = s\<lparr>queue := rest\<rparr>;
              ansRune = normalize_answer answer;
              userAnswer = (if ansRune \<noteq> 0 then string_of_rune ansRune else [])
          in
          if \<not> in_range idx (Questions s0) then Inl IndexOutOfRange
          else
            let res = \<lparr>UserAnswer = userAnswer,
                       Correct = EqualFold (TrimSpace answer) (Answer_q (Questions s0 ! nat idx))\<rparr>
            in
            if Correct res \<and> \<not> in_range idx (completed s0) then Inl IndexOutOfRange
            else
              let s1 = (if Correct res \<and> \<not> completed s0 ! nat idx
                        then s0\<lparr>completed := (completed s0)[nat idx := True],
                                completedCount := completedCount s0 + 1\<rparr>
                        else s0)
              in
              if \<not> in_range idx (attempted s1) then Inl IndexOutOfRange
              else if \<not> attempted s1 ! nat idx \<and> \<not> in_range idx (results s1)
              then Inl IndexOutOfRange
              else
                let s2 = (if \<not> attempted s1 ! nat idx
                          then s1\<lparr>attempted := (attempted s1)[nat idx := True],
                                  results := (results s1)[nat idx := res],
                                  attemptedCount := attemptedCount s1 + 1\<rparr>
                          else s1);
                    s3 = (if \<not> Correct res then s2\<lparr>queue := queue s2 @ [idx]\<rparr> else s2);
                    finished = (queue s3 = [])
                in Inr (res, finished, None, s3))"

text \<open>The search loop of \<open>BringToFront\<close>: the position of the first occurrence of
  \<open>target\<close>, counted from \<open>i\<close>, or \<open>-1\<close>.\<close>

fun find_pos :: "int list \<Rightarrow> int \<Rightarrow> int \<Rightarrow> int" where
  "find_pos [] target i = - 1"
| "find_pos (v # vs) target i = (if v = target then i else find_pos vs target (i + 1))"

definition BringToFront :: "Session \<Rightarrow> int \<Rightarrow> Session" where
  "BringToFront s target =
     (if target < 0 \<or> target \<ge> int (length (completed s)) \<or> completed s ! nat target then s
      else
        let pos = find_pos (queue s) target 0
        in if pos = 0 then s
           else if pos = - 1 then s\<lparr>queue := target # queue s\<rparr>
           else s\<lparr>queue := target # (take (nat pos) (queue s) @ drop (nat pos + 1) (queue s))\<rparr>)"

definition Progress :: "Session \<Rightarrow> int \<times> int" where
  "Progress s = (completedCount s, int (length (Questions s)))"

definition AttemptedCount :: "Session \<Rightarrow> int" where
  "AttemptedCount s = attemptedCount s"

definition Results :: "Session \<Rightarrow> Result list" where
  "Results s = results s"

text \<open>The loop of \<open>Score\<close> over \<open>s.results\<close>, from index \<open>i\<close> on; \<open>s.attempted[i]\<close>
  is read at every index.\<close>

fun score_loop :: "bool list \<Rightarrow> Result list \<Rightarrow> nat \<Rightarrow> int \<Rightarrow> int \<Rightarrow> fault + (int \<times> int)" where
  "score_loop att [] i score answered = Inr (score, answered)"
| "score_loop att (res # rest) i score answered =
     (if i \<ge> length att then Inl IndexOutOfRange
      else if att ! i
           then score_loop att rest (i + 1) (if Correct res then score + 1 else score) (answered + 1)
           else score_loop att rest (i + 1) score answered)"

definition Score :: "Session \<Rightarrow> fault + (int \<times> int)" where
  "Score s = score_loop (attempted s) (results s) 0 0 0"

definition Completed :: "Session \<Rightarrow> bool" where
  "Completed s = (queue s = [])"

subsection \<open>Calls in sequence, and the sessions a program can reach\<close>

datatype call = CallAnswer string | CallBringToFront int

fun step :: "Session \<Rightarrow> call \<Rightarrow> fault + Session" where
  "step s (CallAnswer a) =
     (case Answer s a of Inl f \<Rightarrow> Inl f | Inr (res, finished, err, s') \<Rightarrow> Inr s')"
| "step s (CallBringToFront t) = Inr (BringToFront s t)"

fun run :: "Session \<Rightarrow> call list \<Rightarrow> fault + Session" where
  "run s [] = Inr s"
| "run s (c # cs) = (case step s c of Inl f \<Rightarrow> Inl f | Inr s' \<Rightarrow> run s' cs)"

inductive reachable :: "Question list \<Rightarrow> Session \<Rightarrow> bool" for qs :: "Question list" where
  init: "isPerm (length qs) p \<Longrightarrow> reachable qs (NewSession qs p)"
| answer: "reachable qs s \<Longrightarrow> Answer s a = Inr (res, finished, err, s') \<Longrightarrow> reachable qs s'"
| jump: "reachable qs s \<Longrightarrow> reachable qs (BringToFront s t)"

text \<open>The invariant of a session: the three per-question slices have one entry per question,
  the queue holds every index that is not completed exactly once, the counters count the flags,
  and a completed question has been attempted.\<close>

definition count_true :: "bool list \<Rightarrow> nat" where
  "count_true bs = length (filter (\<lambda>b. b) bs)"

definition session_inv :: "Session \<Rightarrow> bool" where
  "session_inv s =
     (length (attempted s) = length (Questions s) \<and>
      length (completed s) = length (Questions s) \<and>
      length (results s) = length (Questions s) \<and>
      distinct (queue s) \<and>
      set (queue s) = {i. in_range i (Questions s) \<and> \<not> completed s ! nat i} \<and>
      completedCount s = int (count_true (completed s)) \<and>
      attemptedCount s = int (count_true (attempted s)) \<and>
      (\<forall>i < length (Questions s). completed s ! i \<longrightarrow> attempted s ! i))"

text \<open>The result that \<open>Answer\<close> builds for the question at index \<open>idx\<close>, named so
  that the lemmas about \<open>Answer\<close> can speak of it.\<close>

definition graded :: "Session \<Rightarrow> int \<Rightarrow> string \<Rightarrow> Result" where
  "graded s idx answer =
     \<lparr>UserAnswer = (if normalize_answer answer \<noteq> 0 then string_of_rune (normalize_answer answer) else []),
      Correct = EqualFold (TrimSpace answer) (Answer_q (Questions s ! nat idx))\<rparr>"

text \<open>What a call may change in the flags, the first-attempt results and the counters.\<close>

definition progress_le :: "Session \<Rightarrow> Session \<Rightarrow> bool" where
  "progress_le s s' =
     ((\<forall>i < length (Questions s). attempted s ! i \<longrightarrow> attempted s' ! i \<and> results s' ! i = results s ! i) \<and>
      (\<forall>i < length (Questions s). completed s ! i \<longrightarrow> completed s' ! i) \<and>
      attemptedCount s \<le> attemptedCount s' \<and>
      completedCount s \<le> completedCount s')"

subsection \<open>Sample data\<close>

text \<open>The questions of the repository's server tests.\<close>

definition sky_question :: Question where
  "sky_question =
     \<lparr>Domain_q = 1, Prompt = ''Sky color?'',
      Options = [''A'' \<mapsto> ''Green'', ''B'' \<mapsto> ''Blue''], Answer_q = ''B''\<rparr>"

definition grass_question :: Question where
  "grass_question =
     \<lparr>Domain_q = 2, Prompt = ''Grass color?'',
      Options = [''A'' \<mapsto> ''Blue'', ''B'' \<mapsto> ''Green''], Answer_q = ''B''\<rparr>"

text \<open>A question whose answer key was left out of the question file: \<open>json.Unmarshal\<close>
  leaves the field at its zero value, the empty string.\<close>

definition keyless_question :: Question where
  "keyless_question =
     \<lparr>Domain_q = 1, Prompt = ''Sky color?'',
      Options = [''A'' \<mapsto> ''Green'', ''B'' \<mapsto> ''Blue''], Answer_q = []\<rparr>"

text \<open>Sample sessions: one question, at the start and after the answer \<open>B\<close>; two
  questions at the start, in the order \<open>0, 1\<close>.\<close>

definition sky_start :: Session where
  "sky_start = NewSession [sky_question] [0]"

definition sky_done :: Session where
  "sky_done =
     \<lparr>Questions = [sky_question], attempted = [True], completed = [True],
      results = [\<lparr>UserAnswer = ''B'', Correct = True\<rparr>], queue = [],
      completedCount = 1, attemptedCount = 1\<rparr>"

definition two_start :: Session where
  "two_start = NewSession [sky_question, grass_question] [0, 1]"

text \<open>The one-question session after the wrong answer \<open>A\<close>, and after the answer
  \<open>B\<close> that follows it.\<close>

definition sky_wrong :: Session where
  "sky_wrong =
     \<lparr>Questions = [sky_question], attempted = [True], completed = [False],
      results = [\<lparr>UserAnswer = ''A'', Correct = False\<rparr>], queue = [0],
      completedCount = 0, attemptedCount = 1\<rparr>"

definition sky_retried :: Session where
  "sky_retried =
     \<lparr>Questions = [sky_question], attempted = [True], completed = [True],
      results = [\<lparr>UserAnswer = ''A'', Correct = False\<rparr>], queue = [],
      completedCount = 1, attemptedCount = 1\<rparr>"

text \<open>The session over the question without a key, at the start and after an empty answer.\<close>

definition keyless_start :: Session where
  "keyless_start = NewSession [keyless_question] [0]"

definition keyless_done :: Session where
  "keyless_done =
     \<lparr>Questions = [keyless_question], attempted = [True], completed = [True],
      results = [\<lparr>UserAnswer = [], Correct = True\<rparr>], queue = [],
      completedCount = 1, attemptedCount = 1\<rparr>"

text \<open>The one-question session after an answer that is the single byte NUL, and after the
  answer \<open>C3 A9\<close>, the UTF-8 encoding of U+00E9 (e with acute accent).\<close>

definition sky_nul :: Session where
  "sky_nul =
     \<lparr>Questions = [sky_question], attempted = [True], completed = [False],
      results = [\<lparr>UserAnswer = [], Correct = False\<rparr>], queue = [0],
      completedCount = 0, attemptedCount = 1\<rparr>"

definition sky_e_acute :: Session where
  "sky_e_acute =
     \<lparr>Questions = [sky_question], attempted = [True], completed = [False],
      results = [\<lparr>UserAnswer = [CHR 0xC3, CHR 0x83], Correct = False\<rparr>], queue = [0],
      completedCount = 0, attemptedCount = 1\<rparr>"

section \<open>Lemmas\<close>

subsection \<open>Bytes and strings\<close>

lemma of_char_range: "0 \<le> (of_char c :: int) \<and> (of_char c :: int) < 256"
proof -
  have "(of_char c :: int) mod 256 = of_char c" by simp
  then show ?thesis
    using pos_mod_sign [of 256 "of_char c :: int"] pos_mod_bound [of 256 "of_char c :: int"]
    by simp
qed

lemma of_char_toUpperByte:
  "(of_char (toUpperByte c) :: int) =
     (if 97 \<le> (of_char c :: int) \<and> (of_char c :: int) \<le> 122 then of_char c - 32 else of_char c)"
proof (cases "97 \<le> (of_char c :: int) \<and> (of_char c :: int) \<le> 122")
  case True
  then have "((of_char c :: int) - 32) mod 256 = of_char c - 32" by simp
  with True show ?thesis by (simp add: toUpperByte_def Let_def)
next
  case False
  then have "toUpperByte c = c" by (auto simp: toUpperByte_def Let_def)
  with False show ?thesis by simp
qed

lemma fold_arith_lt:
  fixes a b :: int
  assumes "a < b"
  shows "((if 97 \<le> a \<and> a \<le> 122 then a - 32 else a) = (if 97 \<le> b \<and> b \<le> 122 then b - 32 else b))
     \<longleftrightarrow> (65 \<le> a \<and> a \<le> 90 \<and> b = a + 32)"
  using assms by (simp split: if_splits) arith


lemma toUpperByte_eq_fold:
  assumes "tr \<noteq> sr"
  shows "toUpperByte sr = toUpperByte tr \<longleftrightarrow>
     (65 \<le> min (of_char sr :: int) (of_char tr) \<and> min (of_char sr :: int) (of_char tr) \<le> 90 \<and>
      max (of_char sr :: int) (of_char tr) = min (of_char sr) (of_char tr) + 32)"
proof -
  have eq: "toUpperByte sr = toUpperByte tr \<longleftrightarrow>
      (of_char (toUpperByte sr) :: int) = of_char (toUpperByte tr)" by simp
  from assms have ne: "(of_char sr :: int) \<noteq> of_char tr" by simp
  show ?thesis
  proof (cases "(of_char sr :: int) < of_char tr")
    case True
    then show ?thesis unfolding eq of_char_toUpperByte
      using fold_arith_lt [of "of_char sr" "of_char tr"] by (simp add: min_def max_def)
  next
    case False
    with ne have lt: "(of_char tr :: int) < of_char sr" by linarith
    then show ?thesis unfolding eq of_char_toUpperByte
      using fold_arith_lt [of "of_char tr" "of_char sr"] by (simp add: min_def max_def eq_commute)
  qed
qed

lemma EqualFold_ToUpper: "EqualFold s t \<longleftrightarrow> ToUpper s = ToUpper t"
proof (induction s arbitrary: t)
  case Nil
  show ?case by (cases t) (simp_all add: ToUpper_def)
next
  case (Cons sr s)
  show ?case
  proof (cases t)
    case Nil
    then show ?thesis by (simp add: ToUpper_def)
  next
    case (Cons tr t')
    show ?thesis
    proof (cases "tr = sr")
      case True
      with Cons Cons.IH [of t'] show ?thesis by (simp add: ToUpper_def)
    next
      case False
      define c where "c \<longleftrightarrow>
        (65 \<le> min (of_char sr :: int) (of_char tr) \<and> min (of_char sr :: int) (of_char tr) \<le> 90 \<and>
         max (of_char sr :: int) (of_char tr) = min (of_char sr) (of_char tr) + 32)"
      from toUpperByte_eq_fold [OF False] have b: "toUpperByte sr = toUpperByte tr \<longleftrightarrow> c"
        by (simp only: c_def)
      from False have l: "EqualFold (sr # s) (tr # t') = (if c then EqualFold s t' else False)"
        by (simp only: EqualFold.simps Let_def c_def if_False)
      have r: "ToUpper (sr # s) = ToUpper (tr # t') \<longleftrightarrow>
          toUpperByte sr = toUpperByte tr \<and> ToUpper s = ToUpper t'"
        by (simp add: ToUpper_def)
      show ?thesis unfolding Cons l r b using Cons.IH [of t'] by simp
    qed
  qed
qed

lemma of_char_zero_iff: "(of_char c :: int) = 0 \<longleftrightarrow> c = CHR 0x00"
proof -
  have "(of_char c :: int) = of_char (CHR 0x00) \<longleftrightarrow> c = CHR 0x00" by (rule of_char_eq_iff)
  then show ?thesis by simp
qed

lemma toUpperByte_zero_iff: "(of_char (toUpperByte c) :: int) = 0 \<longleftrightarrow> c = CHR 0x00"
  unfolding of_char_toUpperByte using of_char_zero_iff [of c] by auto

lemma string_of_rune_ascii:
  assumes "(of_char c :: int) < 128"
  shows "string_of_rune (of_char (toUpperByte c)) = [toUpperByte c]"
proof -
  from assms have "(of_char (toUpperByte c) :: int) < 128" and "0 \<le> (of_char (toUpperByte c) :: int)"
    unfolding of_char_toUpperByte using of_char_range [of c] by auto
  then show ?thesis by (simp add: string_of_rune_def)
qed

lemma spaceEncodings_bytes:
  "spaceEncodings =
    [[CHR 0x09], [CHR 0x0A], [CHR 0x0B], [CHR 0x0C], [CHR 0x0D], [CHR 0x20],
     [CHR 0xC2, CHR 0x85], [CHR 0xC2, CHR 0xA0], [CHR 0xE1, CHR 0x9A, CHR 0x80],
     [CHR 0xE2, CHR 0x80, CHR 0x80], [CHR 0xE2, CHR 0x80, CHR 0x81], [CHR 0xE2, CHR 0x80, CHR 0x82],
     [CHR 0xE2, CHR 0x80, CHR 0x83], [CHR 0xE2, CHR 0x80, CHR 0x84], [CHR 0xE2, CHR 0x80, CHR 0x85],
     [CHR 0xE2, CHR 0x80, CHR 0x86], [CHR 0xE2, CHR 0x80, CHR 0x87], [CHR 0xE2, CHR 0x80, CHR 0x88],
     [CHR 0xE2, CHR 0x80, CHR 0x89], [CHR 0xE2, CHR 0x80, CHR 0x8A],
     [CHR 0xE2, CHR 0x80, CHR 0xA8], [CHR 0xE2, CHR 0x80, CHR 0xA9], [CHR 0xE2, CHR 0x80, CHR 0xAF],
     [CHR 0xE2, CHR 0x81, CHR 0x9F], [CHR 0xE3, CHR 0x80, CHR 0x80]]"
  by (simp add: spaceEncodings_def spaceRunes_def string_of_rune_def char_of_def)

lemma TrimSpace_empty: "TrimSpace [] = []"
  by (simp add: TrimSpace_def spaceEncodings_bytes strip.simps)

lemma TrimSpace_A: "TrimSpace ''A'' = ''A''"
  by (simp add: TrimSpace_def spaceEncodings_bytes strip.simps)

lemma TrimSpace_B: "TrimSpace ''B'' = ''B''"
  by (simp add: TrimSpace_def spaceEncodings_bytes strip.simps)

lemma TrimSpace_blanks: "TrimSpace ''  '' = []"
  by (simp add: TrimSpace_def spaceEncodings_bytes strip.simps)

lemma TrimSpace_nbsp: "TrimSpace [CHR 0xC2, CHR 0xA0] = []"
  by (simp add: TrimSpace_def spaceEncodings_bytes strip.simps)

lemma TrimSpace_mixed:
  "TrimSpace [CHR 0xE3, CHR 0x80, CHR 0x80, CHR 0x09, CHR 0xE2, CHR 0x80, CHR 0xA8, CHR 0xC2, CHR 0x85]
     = []"
  by (simp add: TrimSpace_def spaceEncodings_bytes strip.simps)

lemma TrimSpace_nul: "TrimSpace [CHR 0x00] = [CHR 0x00]"
  by (simp add: TrimSpace_def spaceEncodings_bytes strip.simps)

lemma TrimSpace_e_acute: "TrimSpace [CHR 0xC3, CHR 0xA9] = [CHR 0xC3, CHR 0xA9]"
  by (simp add: TrimSpace_def spaceEncodings_bytes strip.simps)

lemma set_strip: "set (strip encs s) \<subseteq> set s"
proof (induction encs s rule: strip.induct)
  case (1 encs s)
  show ?case
  proof (cases "find (\<lambda>e. e \<noteq> [] \<and> take (length e) s = e) encs")
    case None
    then show ?thesis by (simp add: strip.simps [of encs s])
  next
    case (Some e)
    from "1" [OF Some] have "set (strip encs (drop (length e) s)) \<subseteq> set (drop (length e) s)" .
    also have "\<dots> \<subseteq> set s" by (rule set_drop_subset)
    finally show ?thesis using Some by (simp add: strip.simps [of encs s])
  qed
qed

lemma set_TrimSpace: "set (TrimSpace a) \<subseteq> set a"
proof -
  have "set (TrimSpace a) \<subseteq> set (rev (strip spaceEncodings a))"
    unfolding TrimSpace_def
    using set_strip [of "map rev spaceEncodings" "rev (strip spaceEncodings a)"] by simp
  also have "\<dots> \<subseteq> set a" using set_strip [of spaceEncodings a] by simp
  finally show ?thesis .
qed

text \<open>\<open>TrimSpace\<close> returns the empty string exactly for the strings that are sequences of
  white-space characters: no encoding of a white-space code point is the beginning or the end
  of another one, so stripping consumes such a string whole.\<close>

lemma strip_Nil: "strip encs [] = []"
proof -
  have "find (\<lambda>e. e \<noteq> [] \<and> take (length e) [] = e) encs = None"
    by (auto simp: find_None_iff)
  then show ?thesis by (simp add: strip.simps [of encs "[]"])
qed

lemma strip_empty_concat:
  "strip encs s = [] \<Longrightarrow> \<exists>es. set es \<subseteq> set encs \<and> s = concat es"
proof (induction encs s rule: strip.induct)
  case (1 encs s)
  show ?case
  proof (cases "find (\<lambda>e. e \<noteq> [] \<and> take (length e) s = e) encs")
    case None
    with "1.prems" have "s = []" by (simp add: strip.simps [of encs s])
    then show ?thesis by (intro exI [of _ "[]"]) simp
  next
    case (Some e)
    then have e: "e \<in> set encs" and t: "take (length e) s = e"
      by (auto simp: find_Some_iff in_set_conv_nth)
    from "1.prems" Some have "strip encs (drop (length e) s) = []"
      by (simp add: strip.simps [of encs s])
    from "1.IH" [OF Some this] obtain es where
      es: "set es \<subseteq> set encs" "drop (length e) s = concat es" by blast
    have "s = take (length e) s @ drop (length e) s" by simp
    with t es(2) have "s = concat (e # es)" by simp
    with e es(1) show ?thesis by (intro exI [of _ "e # es"]) simp
  qed
qed

lemma spaceEncodings_prefix_free:
  "\<forall>e \<in> set spaceEncodings. \<forall>e' \<in> set spaceEncodings. take (length e) e' = e \<longrightarrow> e = e'"
  by (simp add: spaceEncodings_bytes)

lemma spaceEncodings_suffix_free:
  "\<forall>e \<in> set (map rev spaceEncodings). \<forall>e' \<in> set (map rev spaceEncodings).
     take (length e) e' = e \<longrightarrow> e = e'"
  by (simp add: spaceEncodings_bytes)

lemma spaceEncodings_nonempty: "[] \<notin> set spaceEncodings"
  by (simp add: spaceEncodings_bytes)


lemma strip_idem: "strip encs (strip encs s) = strip encs s"
proof (induction encs s rule: strip.induct)
  case (1 encs s)
  show ?case
  proof (cases "find (\<lambda>e. e \<noteq> [] \<and> take (length e) s = e) encs")
    case None
    then have "strip encs s = s" by (simp add: strip.simps [of encs s])
    then show ?thesis by simp
  next
    case (Some e)
    then have "strip encs s = strip encs (drop (length e) s)" by (simp add: strip.simps [of encs s])
    with "1.IH" [OF Some] show ?thesis by simp
  qed
qed

lemma strip_concat:
  assumes pf: "\<forall>e \<in> set encs. \<forall>e' \<in> set encs. take (length e) e' = e \<longrightarrow> e = e'"
    and ne: "[] \<notin> set encs"
  shows "set es \<subseteq> set encs \<Longrightarrow> strip encs (concat es) = []"
proof (induction es)
  case Nil
  show ?case by (simp add: strip_Nil)
next
  case (Cons e es)
  let ?s = "concat (e # es)"
  let ?P = "\<lambda>e'. e' \<noteq> [] \<and> take (length e') ?s = e'"
  from Cons.prems have e: "e \<in> set encs" and es: "set es \<subseteq> set encs" by simp_all
  from e ne have "e \<noteq> []" by auto
  then have "?P e" by simp
  with e have "find ?P encs \<noteq> None" by (auto simp: find_None_iff)
  then obtain e' where f: "find ?P encs = Some e'" by auto
  then have e': "e' \<in> set encs" and t: "take (length e') ?s = e'"
    by (auto simp: find_Some_iff in_set_conv_nth)
  have "e' = e"
  proof (cases "length e' \<le> length e")
    case True
    with t have "take (length e') e = e'" by simp
    with pf e e' show ?thesis by blast
  next
    case False
    then have "take (length e) e' = take (length e) (take (length e') ?s)" using t by simp
    also have "\<dots> = e" using False by (simp add: min_def)
    finally have "take (length e) e' = e" .
    with pf e e' show ?thesis by blast
  qed
  with f have f': "find ?P encs = Some e" by (simp only:)
  have "strip encs ?s =
      (case find ?P encs of None \<Rightarrow> ?s | Some e \<Rightarrow> strip encs (drop (length e) ?s))"
    by (rule strip.simps)
  also have "\<dots> = strip encs (drop (length e) ?s)" unfolding f' by simp
  also have "\<dots> = strip encs (concat es)" by simp
  also have "\<dots> = []" by (rule Cons.IH [OF es])
  finally show ?case .
qed

lemma TrimSpace_empty_iff:
  "TrimSpace s = [] \<longleftrightarrow> (\<exists>es. set es \<subseteq> set spaceEncodings \<and> s = concat es)"
proof
  assume "\<exists>es. set es \<subseteq> set spaceEncodings \<and> s = concat es"
  then obtain es where "set es \<subseteq> set spaceEncodings" "s = concat es" by blast
  with strip_concat [OF spaceEncodings_prefix_free spaceEncodings_nonempty, of es]
  have "strip spaceEncodings s = []" by simp
  then show "TrimSpace s = []" by (simp add: TrimSpace_def strip_Nil)
next
  assume "TrimSpace s = []"
  let ?t = "strip spaceEncodings s"
  from \<open>TrimSpace s = []\<close> have "strip (map rev spaceEncodings) (rev ?t) = []"
    by (simp add: TrimSpace_def)
  from strip_empty_concat [OF this] obtain fs where
    fs: "set fs \<subseteq> set (map rev spaceEncodings)" "rev ?t = concat fs" by blast
  from fs(2) have "?t = rev (concat fs)" by (metis rev_rev_ident)
  then have t: "?t = concat (map rev (rev fs))" by (simp add: rev_concat)
  from fs(1) have "set (map rev (rev fs)) \<subseteq> set spaceEncodings" by auto
  from strip_concat [OF spaceEncodings_prefix_free spaceEncodings_nonempty this] t
  have "strip spaceEncodings ?t = []" by simp
  then have "?t = []" by (simp add: strip_idem)
  from strip_empty_concat [OF this] show "\<exists>es. set es \<subseteq> set spaceEncodings \<and> s = concat es" .
qed

lemma isASCII_TrimSpace: "isASCII a \<Longrightarrow> isASCII (TrimSpace a)"
  using set_TrimSpace [of a] by (auto simp: isASCII_def list_all_iff)

lemma isASCII_hd: "isASCII a \<Longrightarrow> a \<noteq> [] \<Longrightarrow> (of_char (hd a) :: int) < 128"
  by (cases a) (simp_all add: isASCII_def)

lemma EqualFold_empty: "EqualFold [] key \<longleftrightarrow> key = []"
  by (cases key) simp_all

lemma normalize_answer_empty: "TrimSpace a = [] \<Longrightarrow> normalize_answer a = 0"
  by (simp add: normalize_answer_def)

lemma normalize_answer_first:
  "TrimSpace a \<noteq> [] \<Longrightarrow> normalize_answer a = of_char (toUpperByte (hd (TrimSpace a)))"
  by (cases "TrimSpace a") (simp_all add: normalize_answer_def ToUpper_def)

subsection \<open>Counting flags\<close>

lemma count_true_le: "count_true bs \<le> length bs"
  by (simp add: count_true_def)

lemma count_true_update:
  "i < length bs \<Longrightarrow> \<not> bs ! i \<Longrightarrow> count_true (bs[i := True]) = Suc (count_true bs)"
proof (induction bs arbitrary: i)
  case Nil
  then show ?case by simp
next
  case (Cons b bs)
  then show ?case by (cases i) (auto simp: count_true_def)
qed

lemma count_true_lt:
  "i < length bs \<Longrightarrow> \<not> bs ! i \<Longrightarrow> count_true bs < length bs"
  using count_true_update [of i bs] count_true_le [of "bs[i := True]"] by simp

lemma count_true_full:
  assumes "\<forall>i < length bs. bs ! i"
  shows "count_true bs = length bs"
proof -
  from assms have "\<forall>b \<in> set bs. b" by (auto simp: in_set_conv_nth)
  then have "filter (\<lambda>b. b) bs = bs" by (simp add: filter_id_conv)
  then show ?thesis by (simp add: count_true_def)
qed

lemma count_true_card: "count_true bs = card {i. i < length bs \<and> bs ! i}"
  by (simp add: count_true_def length_filter_conv_card)

subsection \<open>The search loop and the new queue of \<open>BringToFront\<close>\<close>

lemma find_pos_notin: "target \<notin> set vs \<Longrightarrow> find_pos vs target i = - 1"
  by (induction vs arbitrary: i) auto

lemma find_pos_in:
  "target \<in> set vs \<Longrightarrow> 0 \<le> i \<Longrightarrow>
   \<exists>k < length vs. find_pos vs target i = i + int k \<and> vs ! k = target \<and>
      take k vs @ drop (Suc k) vs = remove1 target vs \<and>
      (k = 0 \<longrightarrow> vs = target # remove1 target vs)"
proof (induction vs arbitrary: i)
  case Nil
  then show ?case by simp
next
  case (Cons v vs)
  show ?case
  proof (cases "v = target")
    case True
    then show ?thesis by (intro exI [of _ 0]) simp
  next
    case False
    with Cons.prems have "target \<in> set vs" by simp
    from Cons.IH [OF this, of "i + 1"] Cons.prems obtain k where
      k: "k < length vs" "find_pos vs target (i + 1) = i + 1 + int k" "vs ! k = target"
         "take k vs @ drop (Suc k) vs = remove1 target vs"
      by auto
    with False show ?thesis by (intro exI [of _ "Suc k"]) simp
  qed
qed

lemma BringToFront_noop:
  "target < 0 \<or> target \<ge> int (length (completed s)) \<or> completed s ! nat target \<Longrightarrow>
   BringToFront s target = s"
  by (simp add: BringToFront_def)

lemma BringToFront_queue:
  assumes "\<not> (target < 0 \<or> target \<ge> int (length (completed s)) \<or> completed s ! nat target)"
  shows "queue (BringToFront s target) = target # remove1 target (queue s)"
proof (cases "target \<in> set (queue s)")
  case False
  then show ?thesis using assms
    by (simp add: BringToFront_def find_pos_notin remove1_idem)
next
  case True
  from find_pos_in [OF True, of 0] obtain k where
    k: "k < length (queue s)" "find_pos (queue s) target 0 = int k"
       "take k (queue s) @ drop (Suc k) (queue s) = remove1 target (queue s)"
       "k = 0 \<longrightarrow> queue s = target # remove1 target (queue s)"
    by auto
  show ?thesis
  proof (cases "k = 0")
    case True
    with k assms show ?thesis by (simp add: BringToFront_def)
  next
    case False
    with k assms show ?thesis by (simp add: BringToFront_def Let_def)
  qed
qed

lemma BringToFront_fields:
  "Questions (BringToFront s t) = Questions s \<and>
   attempted (BringToFront s t) = attempted s \<and>
   completed (BringToFront s t) = completed s \<and>
   results (BringToFront s t) = results s \<and>
   attemptedCount (BringToFront s t) = attemptedCount s \<and>
   completedCount (BringToFront s t) = completedCount s"
  by (simp add: BringToFront_def Let_def)

lemma filter_remove1_other: "filter (\<lambda>i. i \<noteq> t) (remove1 t vs) = filter (\<lambda>i. i \<noteq> t) vs"
  by (induction vs) auto

subsection \<open>The invariant holds in every reachable session\<close>

lemma session_inv_NewSession:
  assumes "isPerm (length qs) p"
  shows "session_inv (NewSession qs p)"
proof -
  from assms have d: "distinct p" and sp: "set p = {0..<int (length qs)}"
    by (simp_all add: isPerm_def)
  have idx: "{i. in_range i qs \<and> \<not> replicate (length qs) False ! nat i} = {0..<int (length qs)}"
    by (auto simp: in_range_def)
  show ?thesis
    by (simp add: session_inv_def NewSession_def d sp idx count_true_def)
qed

lemma session_inv_BringToFront:
  assumes "session_inv s"
  shows "session_inv (BringToFront s t)"
proof (cases "t < 0 \<or> t \<ge> int (length (completed s)) \<or> completed s ! nat t")
  case True
  then show ?thesis using assms by (simp add: BringToFront_noop)
next
  case False
  from assms have len: "length (completed s) = length (Questions s)"
    and d: "distinct (queue s)"
    and q: "set (queue s) = {i. in_range i (Questions s) \<and> \<not> completed s ! nat i}"
    by (simp_all add: session_inv_def)
  from False len q have tin: "t \<in> set (queue s)" by (simp add: in_range_def)
  have "distinct (t # remove1 t (queue s))" using d by simp
  moreover have "set (t # remove1 t (queue s)) = set (queue s)" using d tin by auto
  ultimately show ?thesis
    using assms BringToFront_queue [OF False] BringToFront_fields [of s t]
    by (simp add: session_inv_def)
qed

lemma Answer_empty:
  "queue s = [] \<Longrightarrow> Answer s a = Inr (Result_zero, True, Some ''quiz already completed'', s)"
  by (simp add: Answer_def)

lemma inv_front:
  assumes "session_inv s" and "queue s = idx # rest"
  shows "in_range idx (Questions s)" and "\<not> completed s ! nat idx" and "idx \<notin> set rest"
    and "distinct rest"
    and "set rest = {i. in_range i (Questions s) \<and> \<not> completed s ! nat i} - {idx}"
proof -
  from assms have d: "distinct (idx # rest)"
    and q: "insert idx (set rest) = {i. in_range i (Questions s) \<and> \<not> completed s ! nat i}"
    by (simp_all add: session_inv_def)
  from q have "idx \<in> {i. in_range i (Questions s) \<and> \<not> completed s ! nat i}" by blast
  then show "in_range idx (Questions s)" and "\<not> completed s ! nat idx" by simp_all
  from d show "idx \<notin> set rest" and "distinct rest" by simp_all
  with q show "set rest = {i. in_range i (Questions s) \<and> \<not> completed s ! nat i} - {idx}"
    by blast
qed

lemma Answer_correct:
  assumes "session_inv s" and "queue s = idx # rest" and "Correct (graded s idx a)"
  shows "Answer s a = Inr (graded s idx a, rest = [], None,
     s\<lparr>queue := rest,
       completed := (completed s)[nat idx := True],
       completedCount := completedCount s + 1,
       attempted := (attempted s)[nat idx := True],
       results := (if attempted s ! nat idx then results s else (results s)[nat idx := graded s idx a]),
       attemptedCount := (if attempted s ! nat idx then attemptedCount s else attemptedCount s + 1)\<rparr>)"
proof -
  from assms(1) have len: "length (attempted s) = length (Questions s)"
    "length (completed s) = length (Questions s)" "length (results s) = length (Questions s)"
    by (simp_all add: session_inv_def)
  from inv_front [OF assms(1,2)] have r: "in_range idx (Questions s)" and nc: "\<not> completed s ! nat idx"
    by simp_all
  from r have up: "attempted s ! nat idx \<Longrightarrow> (attempted s)[nat idx := True] = attempted s"
    by (metis list_update_id)
  show ?thesis
  proof (cases "attempted s ! nat idx")
    case True
    with assms(2,3) r nc len up show ?thesis
      by (simp add: Answer_def graded_def in_range_def Let_def)
  next
    case False
    with assms(2,3) r nc len show ?thesis
      by (simp add: Answer_def graded_def in_range_def Let_def)
  qed
qed

lemma Answer_wrong:
  assumes "session_inv s" and "queue s = idx # rest" and "\<not> Correct (graded s idx a)"
  shows "Answer s a = Inr (graded s idx a, False, None,
     s\<lparr>queue := rest @ [idx],
       attempted := (attempted s)[nat idx := True],
       results := (if attempted s ! nat idx then results s else (results s)[nat idx := graded s idx a]),
       attemptedCount := (if attempted s ! nat idx then attemptedCount s else attemptedCount s + 1)\<rparr>)"
proof -
  from assms(1) have len: "length (attempted s) = length (Questions s)"
    "length (completed s) = length (Questions s)" "length (results s) = length (Questions s)"
    by (simp_all add: session_inv_def)
  from inv_front [OF assms(1,2)] have r: "in_range idx (Questions s)" and nc: "\<not> completed s ! nat idx"
    by simp_all
  from r have up: "attempted s ! nat idx \<Longrightarrow> (attempted s)[nat idx := True] = attempted s"
    by (metis list_update_id)
  show ?thesis
  proof (cases "attempted s ! nat idx")
    case True
    with assms(2,3) r nc len up show ?thesis
      by (simp add: Answer_def graded_def in_range_def Let_def)
  next
    case False
    with assms(2,3) r nc len show ?thesis
      by (simp add: Answer_def graded_def in_range_def Let_def)
  qed
qed


lemma session_inv_Answer:
  assumes inv: "session_inv s" and ans: "Answer s a = Inr (res, finished, err, s')"
  shows "session_inv s'"
proof (cases "queue s")
  case Nil
  with ans inv show ?thesis by (simp add: Answer_empty)
next
  case (Cons idx rest)
  note fr = inv_front [OF inv Cons]
  from inv have len: "length (attempted s) = length (Questions s)"
    "length (completed s) = length (Questions s)" "length (results s) = length (Questions s)"
    and cc: "completedCount s = int (count_true (completed s))"
    and ac: "attemptedCount s = int (count_true (attempted s))"
    and ca: "\<forall>i < length (Questions s). completed s ! i \<longrightarrow> attempted s ! i"
    by (simp_all add: session_inv_def)
  from fr(1) have ilt: "nat idx < length (Questions s)" and i0: "0 \<le> idx"
    by (auto simp: in_range_def)
  have att: "attemptedCount s' = int (count_true (attempted s'))"
    if "attempted s' = (attempted s)[nat idx := True]"
      and "attemptedCount s' = (if attempted s ! nat idx then attemptedCount s else attemptedCount s + 1)"
  proof (cases "attempted s ! nat idx")
    case True
    then have "(attempted s)[nat idx := True] = attempted s" by (metis list_update_id)
    with that True ac show ?thesis by simp
  next
    case False
    with that ac ilt len show ?thesis by (simp add: count_true_update)
  qed
  show ?thesis
  proof (cases "Correct (graded s idx a)")
    case True
    from ans Answer_correct [OF inv Cons True]
    have s': "s' = s\<lparr>queue := rest,
       completed := (completed s)[nat idx := True],
       completedCount := completedCount s + 1,
       attempted := (attempted s)[nat idx := True],
       results := (if attempted s ! nat idx then results s else (results s)[nat idx := graded s idx a]),
       attemptedCount := (if attempted s ! nat idx then attemptedCount s else attemptedCount s + 1)\<rparr>"
      by simp
    have 1: "length (attempted s') = length (Questions s')" "length (completed s') = length (Questions s')"
      "length (results s') = length (Questions s')"
      using len by (simp_all add: s')
    have 2: "distinct (queue s')" using fr(4) by (simp add: s')
    have "{i. in_range i (Questions s) \<and> \<not> completed s ! nat i} - {idx}
        = {i. in_range i (Questions s) \<and> \<not> (completed s)[nat idx := True] ! nat i}"
      using len ilt i0 by (auto simp: in_range_def nth_list_update)
    then have 3: "set (queue s') = {i. in_range i (Questions s') \<and> \<not> completed s' ! nat i}"
      using fr(5) by (simp add: s')
    have 4: "completedCount s' = int (count_true (completed s'))"
      using cc fr(2) ilt len by (simp add: s' count_true_update)
    have 5: "attemptedCount s' = int (count_true (attempted s'))"
      by (rule att) (simp_all add: s')
    have 6: "\<forall>i < length (Questions s'). completed s' ! i \<longrightarrow> attempted s' ! i"
      using ca len ilt by (auto simp: s' nth_list_update)
    from 1 2 3 4 5 6 show ?thesis unfolding session_inv_def by blast
  next
    case False
    from ans Answer_wrong [OF inv Cons False]
    have s': "s' = s\<lparr>queue := rest @ [idx],
       attempted := (attempted s)[nat idx := True],
       results := (if attempted s ! nat idx then results s else (results s)[nat idx := graded s idx a]),
       attemptedCount := (if attempted s ! nat idx then attemptedCount s else attemptedCount s + 1)\<rparr>"
      by simp
    have 1: "length (attempted s') = length (Questions s')" "length (completed s') = length (Questions s')"
      "length (results s') = length (Questions s')"
      using len by (simp_all add: s')
    have 2: "distinct (queue s')" using fr(3,4) by (simp add: s')
    have "set (rest @ [idx]) = set (queue s)" using Cons by auto
    then have 3: "set (queue s') = {i. in_range i (Questions s') \<and> \<not> completed s' ! nat i}"
      using inv by (simp add: s' session_inv_def)
    have 4: "completedCount s' = int (count_true (completed s'))"
      using cc by (simp add: s')
    have 5: "attemptedCount s' = int (count_true (attempted s'))"
      by (rule att) (simp_all add: s')
    have 6: "\<forall>i < length (Questions s'). completed s' ! i \<longrightarrow> attempted s' ! i"
      using ca len ilt by (auto simp: s' nth_list_update)
    from 1 2 3 4 5 6 show ?thesis unfolding session_inv_def by blast
  qed
qed

lemma Answer_Questions:
  "Answer s a = Inr (res, finished, err, s') \<Longrightarrow> Questions s' = Questions s"
  by (auto simp: Answer_def Let_def split: list.splits if_splits)

lemma reachable_inv: "reachable qs s \<Longrightarrow> session_inv s \<and> Questions s = qs"
proof (induction rule: reachable.induct)
  case (init p)
  then show ?case by (simp add: session_inv_NewSession) (simp add: NewSession_def)
next
  case (answer s a res finished err s')
  from answer.IH have "session_inv s" and "Questions s = qs" by simp_all
  with answer.hyps(2) show ?case
    using session_inv_Answer [of s a res finished err s'] Answer_Questions [of s a res finished err s']
    by simp
next
  case (jump s t)
  then show ?case using session_inv_BringToFront [of s t] BringToFront_fields [of s t] by simp
qed

lemma inv_queue_partition:
  assumes "session_inv s"
  shows "set (queue s) \<union> {i. in_range i (Questions s) \<and> completed s ! nat i} = {0..<int (length (Questions s))}"
proof -
  from assms have q: "set (queue s) = {i. in_range i (Questions s) \<and> \<not> completed s ! nat i}"
    by (simp add: session_inv_def)
  have "{i. in_range i (Questions s) \<and> \<not> completed s ! nat i} \<union>
        {i. in_range i (Questions s) \<and> completed s ! nat i} = {i. in_range i (Questions s)}"
    by blast
  moreover have "{i. in_range i (Questions s)} = {0..<int (length (Questions s))}"
    by (auto simp: in_range_def)
  ultimately show ?thesis unfolding q by simp
qed

lemma inv_finished_count:
  assumes "session_inv s" and "queue s = []"
  shows "completedCount s = int (length (Questions s))"
proof -
  from assms have e: "{i. in_range i (Questions s) \<and> \<not> completed s ! nat i} = {}"
    and len: "length (completed s) = length (Questions s)"
    and cc: "completedCount s = int (count_true (completed s))"
    by (simp_all add: session_inv_def)
  have "\<forall>i < length (completed s). completed s ! i"
  proof (intro allI impI)
    fix i assume "i < length (completed s)"
    with len have "in_range (int i) (Questions s)" by (simp add: in_range_def)
    with e show "completed s ! i" by fastforce
  qed
  then have "count_true (completed s) = length (completed s)" by (rule count_true_full)
  with cc len show ?thesis by simp
qed

lemma reachable_counts_bounded:
  assumes "reachable qs s"
  shows "0 \<le> completedCount s \<and> completedCount s \<le> int (length qs) \<and>
         0 \<le> attemptedCount s \<and> attemptedCount s \<le> int (length qs)"
proof -
  from reachable_inv [OF assms] have inv: "session_inv s" and q: "Questions s = qs" by simp_all
  from inv have "completedCount s = int (count_true (completed s))"
    and "attemptedCount s = int (count_true (attempted s))"
    and "length (completed s) = length (Questions s)"
    and "length (attempted s) = length (Questions s)"
    by (simp_all add: session_inv_def)
  with q count_true_le [of "completed s"] count_true_le [of "attempted s"] show ?thesis by simp
qed

text \<open>The sessions reached by a sequence of calls from a reachable session are reachable.\<close>

lemma reachable_step:
  assumes "reachable qs s" and "step s c = Inr s'"
  shows "reachable qs s'"
proof (cases c)
  case (CallAnswer a)
  with assms(2) obtain res finished err where "Answer s a = Inr (res, finished, err, s')"
    by (auto split: sum.splits)
  with assms(1) show ?thesis by (rule reachable.answer)
next
  case (CallBringToFront t)
  with assms(2) have "s' = BringToFront s t" by simp
  with assms(1) show ?thesis by (simp add: reachable.jump)
qed

lemma reachable_run:
  "reachable qs s \<Longrightarrow> run s cs = Inr s' \<Longrightarrow> reachable qs s'"
proof (induction cs arbitrary: s)
  case Nil
  then show ?case by simp
next
  case (Cons c cs)
  from Cons.prems(2) obtain s1 where s1: "step s c = Inr s1" "run s1 cs = Inr s'"
    by (auto split: sum.splits)
  from Cons.IH [OF reachable_step [OF Cons.prems(1) s1(1)] s1(2)] show ?case .
qed

subsection \<open>Consequences of the invariant\<close>

lemma inv_unfinished_in_queue:
  assumes "session_inv s" and "0 \<le> t" and "t < int (length (completed s))"
    and "\<not> completed s ! nat t"
  shows "t \<in> set (queue s)"
proof -
  from assms(1) have len: "length (completed s) = length (Questions s)"
    and q: "set (queue s) = {i. in_range i (Questions s) \<and> \<not> completed s ! nat i}"
    by (simp_all add: session_inv_def)
  from assms(2-4) len show ?thesis unfolding q by (simp add: in_range_def)
qed

lemma mset_move_front: "t \<in> set vs \<Longrightarrow> mset (t # remove1 t vs) = mset vs"
  by simp

lemma Answer_inv_success:
  assumes "session_inv s" and "queue s = idx # rest"
  shows "\<exists>finished s'. Answer s a = Inr (graded s idx a, finished, None, s')"
proof (cases "Correct (graded s idx a)")
  case True
  from Answer_correct [OF assms True] show ?thesis by (intro exI) assumption
next
  case False
  from Answer_wrong [OF assms False] show ?thesis by (intro exI) assumption
qed

lemma finished_BringToFront:
  assumes "session_inv s" and "queue s = []"
  shows "BringToFront s t = s"
proof (cases "t < 0 \<or> t \<ge> int (length (completed s)) \<or> completed s ! nat t")
  case True
  then show ?thesis by (simp add: BringToFront_noop)
next
  case False
  then have "t \<in> set (queue s)" using inv_unfinished_in_queue [OF assms(1), of t] by simp
  with assms(2) show ?thesis by simp
qed

lemma finished_run:
  assumes "session_inv s" and "queue s = []"
  shows "run s cs = Inr s"
proof (induction cs)
  case Nil
  show ?case by simp
next
  case (Cons c cs)
  have "step s c = Inr s"
  proof (cases c)
    case (CallAnswer a)
    with assms(2) show ?thesis by (simp add: Answer_empty)
  next
    case (CallBringToFront t)
    with finished_BringToFront [OF assms] show ?thesis by simp
  qed
  with Cons show ?case by simp
qed

subsection \<open>Calls never lose progress\<close>

lemma progress_le_refl: "progress_le s s"
  by (simp add: progress_le_def)

lemma progress_le_trans:
  "progress_le s s' \<Longrightarrow> progress_le s' s'' \<Longrightarrow> Questions s' = Questions s \<Longrightarrow> progress_le s s''"
  by (simp add: progress_le_def)

lemma progress_le_BringToFront: "progress_le s (BringToFront s t)"
  using BringToFront_fields [of s t] by (simp add: progress_le_def)

lemma progress_le_Answer:
  assumes inv: "session_inv s" and ans: "Answer s a = Inr (res, finished, err, s')"
  shows "progress_le s s'"
proof (cases "queue s")
  case Nil
  with ans show ?thesis by (simp add: Answer_empty progress_le_refl)
next
  case (Cons idx rest)
  from inv have len: "length (attempted s) = length (Questions s)"
    "length (completed s) = length (Questions s)" "length (results s) = length (Questions s)"
    by (simp_all add: session_inv_def)
  from inv_front(1) [OF inv Cons] have ilt: "nat idx < length (Questions s)"
    by (auto simp: in_range_def)
  show ?thesis
  proof (cases "Correct (graded s idx a)")
    case True
    from ans Answer_correct [OF inv Cons True]
    have s': "s' = s\<lparr>queue := rest,
       completed := (completed s)[nat idx := True],
       completedCount := completedCount s + 1,
       attempted := (attempted s)[nat idx := True],
       results := (if attempted s ! nat idx then results s else (results s)[nat idx := graded s idx a]),
       attemptedCount := (if attempted s ! nat idx then attemptedCount s else attemptedCount s + 1)\<rparr>"
      by simp
    show ?thesis using len ilt by (auto simp: progress_le_def s' nth_list_update)
  next
    case False
    from ans Answer_wrong [OF inv Cons False]
    have s': "s' = s\<lparr>queue := rest @ [idx],
       attempted := (attempted s)[nat idx := True],
       results := (if attempted s ! nat idx then results s else (results s)[nat idx := graded s idx a]),
       attemptedCount := (if attempted s ! nat idx then attemptedCount s else attemptedCount s + 1)\<rparr>"
      by simp
    show ?thesis using len ilt by (auto simp: progress_le_def s' nth_list_update)
  qed
qed

lemma step_inv:
  assumes "session_inv s"
  shows "\<exists>s'. step s c = Inr s' \<and> session_inv s' \<and> Questions s' = Questions s \<and> progress_le s s'"
proof (cases c)
  case (CallAnswer a)
  have "\<exists>res finished err s'. Answer s a = Inr (res, finished, err, s')"
  proof (cases "queue s")
    case Nil
    from Answer_empty [OF Nil, of a] show ?thesis by (intro exI) assumption
  next
    case (Cons idx rest)
    from Answer_inv_success [OF assms Cons, of a] show ?thesis by blast
  qed
  then obtain res finished err s' where a: "Answer s a = Inr (res, finished, err, s')" by blast
  from session_inv_Answer [OF assms a] Answer_Questions [OF a] progress_le_Answer [OF assms a] a
  show ?thesis by (simp add: CallAnswer)
next
  case (CallBringToFront t)
  from session_inv_BringToFront [OF assms, of t] BringToFront_fields [of s t]
    progress_le_BringToFront [of s t]
  show ?thesis by (simp add: CallBringToFront)
qed

lemma run_inv:
  assumes "session_inv s"
  shows "\<exists>s'. run s cs = Inr s' \<and> session_inv s' \<and> Questions s' = Questions s \<and> progress_le s s'"
  using assms
proof (induction cs arbitrary: s)
  case Nil
  then show ?case by (simp add: progress_le_refl)
next
  case (Cons c cs)
  from step_inv [OF Cons.prems, of c] obtain s1 where
    s1: "step s c = Inr s1" "session_inv s1" "Questions s1 = Questions s" "progress_le s s1"
    by blast
  from Cons.IH [OF s1(2)] obtain s2 where
    s2: "run s1 cs = Inr s2" "session_inv s2" "Questions s2 = Questions s1" "progress_le s1 s2"
    by blast
  from progress_le_trans [OF s1(4) s2(4) s1(3)] s1 s2 show ?case by simp
qed

subsection \<open>The loop of \<open>Score\<close>\<close>

lemma score_loop_eq:
  "k + length rs \<le> length att \<Longrightarrow>
   score_loop att rs k sc an =
     Inr (sc + int (length (filter (\<lambda>(a, r). a \<and> Correct r) (zip (drop k att) rs))),
          an + int (length (filter fst (zip (drop k att) rs))))"
proof (induction rs arbitrary: k sc an)
  case Nil
  show ?case by simp
next
  case (Cons r rs)
  from Cons.prems have k: "k < length att" and k': "Suc k + length rs \<le> length att" by simp_all
  from k have d: "drop k att = att ! k # drop (Suc k) att" by (simp add: Cons_nth_drop_Suc)
  show ?case using k Cons.IH [OF k'] by (simp add: d)
qed

lemma zip_filter_card:
  assumes "length att = length rs"
  shows "length (filter (\<lambda>(a, r). a \<and> Correct r) (zip att rs))
           = card {i. i < length rs \<and> att ! i \<and> Correct (rs ! i)}"
    and "length (filter fst (zip att rs)) = card {i. i < length rs \<and> att ! i}"
proof -
  have "{i. i < length (zip att rs) \<and> (case zip att rs ! i of (a, r) \<Rightarrow> a \<and> Correct r)}
      = {i. i < length rs \<and> att ! i \<and> Correct (rs ! i)}"
    using assms by auto
  then show "length (filter (\<lambda>(a, r). a \<and> Correct r) (zip att rs))
           = card {i. i < length rs \<and> att ! i \<and> Correct (rs ! i)}"
    by (simp only: length_filter_conv_card)
  have "{i. i < length (zip att rs) \<and> fst (zip att rs ! i)} = {i. i < length rs \<and> att ! i}"
    using assms by auto
  then show "length (filter fst (zip att rs)) = card {i. i < length rs \<and> att ! i}"
    by (simp only: length_filter_conv_card)
qed

lemma Score_inv:
  assumes "session_inv s"
  shows "Score s = Inr (int (card {i. i < length (Questions s) \<and> attempted s ! i \<and> Correct (results s ! i)}),
                        attemptedCount s)"
    and "attemptedCount s = int (card {i. i < length (Questions s) \<and> attempted s ! i})"
proof -
  from assms have la: "length (attempted s) = length (Questions s)"
    and lr: "length (results s) = length (Questions s)"
    and ac: "attemptedCount s = int (count_true (attempted s))"
    by (simp_all add: session_inv_def)
  from ac la show c: "attemptedCount s = int (card {i. i < length (Questions s) \<and> attempted s ! i})"
    by (simp add: count_true_card)
  from la lr have l: "length (attempted s) = length (results s)" by simp
  from la lr have "0 + length (results s) \<le> length (attempted s)" by simp
  from score_loop_eq [OF this, of 0 0] zip_filter_card [OF l] lr c
  show "Score s = Inr (int (card {i. i < length (Questions s) \<and> attempted s ! i \<and> Correct (results s ! i)}),
                        attemptedCount s)"
    by (simp add: Score_def)
qed

subsection \<open>Evaluating the sample sessions\<close>

lemma isPerm_single: "isPerm (length [q]) [0]"
  by (auto simp: isPerm_def)

lemma sky_answer_B:
  "Answer sky_start ''B'' = Inr (\<lparr>UserAnswer = ''B'', Correct = True\<rparr>, True, None, sky_done)"
  by (simp add: Answer_def sky_start_def sky_done_def NewSession_def sky_question_def in_range_def
      normalize_answer_def TrimSpace_A TrimSpace_B ToUpper_def toUpperByte_def
      string_of_rune_def Let_def char_of_def)

lemma reachable_sky_start: "reachable [sky_question] sky_start"
  unfolding sky_start_def by (rule reachable.init [OF isPerm_single])

lemma reachable_sky_done: "reachable [sky_question] sky_done"
  by (rule reachable.answer [OF reachable_sky_start sky_answer_B])

lemma reachable_two_start: "reachable [sky_question, grass_question] two_start"
  unfolding two_start_def by (rule reachable.init) (auto simp: isPerm_def)

lemma sky_answer_A:
  "Answer sky_start ''A'' = Inr (\<lparr>UserAnswer = ''A'', Correct = False\<rparr>, False, None, sky_wrong)"
  by (simp add: Answer_def sky_start_def sky_wrong_def NewSession_def sky_question_def in_range_def
      normalize_answer_def TrimSpace_A TrimSpace_B ToUpper_def toUpperByte_def
      string_of_rune_def Let_def char_of_def Result_zero_def)

lemma sky_wrong_answer_B:
  "Answer sky_wrong ''B'' = Inr (\<lparr>UserAnswer = ''B'', Correct = True\<rparr>, True, None, sky_retried)"
  by (simp add: Answer_def sky_wrong_def sky_retried_def sky_question_def in_range_def
      normalize_answer_def TrimSpace_A TrimSpace_B ToUpper_def toUpperByte_def
      string_of_rune_def Let_def char_of_def)

lemma reachable_sky_wrong: "reachable [sky_question] sky_wrong"
  by (rule reachable.answer [OF reachable_sky_start sky_answer_A])

lemma isPerm_single_unique:
  assumes "isPerm (length [q]) p"
  shows "p = [0]"
proof -
  have e: "{0..<int (length [q])} = {0}" by auto
  from assms have d: "distinct p" and s: "set p = {0}" unfolding isPerm_def e by blast+
  show ?thesis
  proof (cases p)
    case Nil
    with s show ?thesis by simp
  next
    case (Cons x xs)
    with s have x: "x = 0" and sub: "set xs \<subseteq> {0}" by auto
    from Cons d x have n: "0 \<notin> set xs" by simp
    have "xs = []"
    proof (cases xs)
      case Nil
      then show ?thesis .
    next
      case (Cons y ys)
      with sub have "y = 0" by simp
      with Cons n show ?thesis by simp
    qed
    with Cons x show ?thesis by simp
  qed
qed

lemma scenario_B_first:
  assumes "Answer_q q = ''B''"
  shows "Answer (NewSession [q] [0]) ''A'' =
     Inr (\<lparr>UserAnswer = ''A'', Correct = False\<rparr>, False, None,
          \<lparr>Questions = [q], attempted = [True], completed = [False],
           results = [\<lparr>UserAnswer = ''A'', Correct = False\<rparr>], queue = [0],
           completedCount = 0, attemptedCount = 1\<rparr>)"
  using assms
  by (simp add: Answer_def NewSession_def in_range_def normalize_answer_def
      TrimSpace_A TrimSpace_B ToUpper_def toUpperByte_def
      string_of_rune_def Let_def char_of_def Result_zero_def)

lemma scenario_B_second:
  assumes "Answer_q q = ''B''"
  shows "Answer \<lparr>Questions = [q], attempted = [True], completed = [False],
           results = [\<lparr>UserAnswer = ''A'', Correct = False\<rparr>], queue = [0],
           completedCount = 0, attemptedCount = 1\<rparr> ''B'' =
     Inr (\<lparr>UserAnswer = ''B'', Correct = True\<rparr>, True, None,
          \<lparr>Questions = [q], attempted = [True], completed = [True],
           results = [\<lparr>UserAnswer = ''A'', Correct = False\<rparr>], queue = [],
           completedCount = 1, attemptedCount = 1\<rparr>)"
  using assms
  by (simp add: Answer_def in_range_def normalize_answer_def
      TrimSpace_A TrimSpace_B ToUpper_def toUpperByte_def
      string_of_rune_def Let_def char_of_def)

subsection \<open>What \<open>Answer\<close> returns on ASCII input, and on a two-byte first character\<close>

text \<open>For an ASCII input that is not empty after trimming and does not start, after trimming,
  with NUL, and an ASCII key, the code does what the sentence on the normalized answer says:
  \<open>userAnswer\<close> is the uppercased first character, and \<open>correct\<close> compares the whole
  trimmed input with the key, up to the case of the letters.\<close>

lemma Answer_on_ascii_input:
  assumes "reachable qs s" and "queue s = idx # rest"
    and "isASCII answer" and "isASCII (Answer_q (qs ! nat idx))"
    and "TrimSpace answer \<noteq> []"
  shows "\<exists>finished s'. Answer s answer =
           Inr (\<lparr>UserAnswer = (if hd (TrimSpace answer) = CHR 0x00 then []
                                else [toUpperByte (hd (TrimSpace answer))]),
                 Correct = (ToUpper (TrimSpace answer) = ToUpper (Answer_q (qs ! nat idx)))\<rparr>,
                finished, None, s')"
proof -
  from reachable_inv [OF assms(1)] have inv: "session_inv s" and q: "Questions s = qs" by simp_all
  from isASCII_hd [OF isASCII_TrimSpace [OF assms(3)] assms(5)]
  have a: "(of_char (hd (TrimSpace answer)) :: int) < 128" .
  have n: "normalize_answer answer = of_char (toUpperByte (hd (TrimSpace answer)))"
    by (rule normalize_answer_first [OF assms(5)])
  have "graded s idx answer =
          \<lparr>UserAnswer = (if hd (TrimSpace answer) = CHR 0x00 then []
                          else [toUpperByte (hd (TrimSpace answer))]),
           Correct = (ToUpper (TrimSpace answer) = ToUpper (Answer_q (qs ! nat idx)))\<rparr>"
    unfolding graded_def n q EqualFold_ToUpper
    by (simp add: toUpperByte_zero_iff string_of_rune_ascii [OF a])
  with Answer_inv_success [OF inv assms(2), of answer] show ?thesis by simp
qed

text \<open>
  The input \<open>C3 A9\<close> is the letter e with acute accent, U+00E9. No white space is trimmed.
  Its upper-case form is U+00C9, encoded \<open>C3 89\<close>: the library's \<open>ToUpper\<close> returns a string
  whose byte 0 is \<open>C3\<close>, as \<open>ToUpper\<close> here does. \<open>normalize\<close> returns that byte as the
  rune U+00C3, and \<open>Answer\<close> encodes this rune: \<open>userAnswer\<close> is \<open>C3 83\<close>, the letter A
  with tilde, and not the uppercased first character of the input. \<open>EqualFold\<close> of the input and
  the key \<open>B\<close> is false in the library as it is here.
\<close>

lemma e_acute_answer:
  "TrimSpace [CHR 0xC3, CHR 0xA9] = [CHR 0xC3, CHR 0xA9] \<and>
   Answer sky_start [CHR 0xC3, CHR 0xA9] =
     Inr (\<lparr>UserAnswer = [CHR 0xC3, CHR 0x83], Correct = False\<rparr>, False, None, sky_e_acute)"
  by (simp add: Answer_def sky_start_def sky_e_acute_def NewSession_def sky_question_def
      in_range_def normalize_answer_def TrimSpace_e_acute ToUpper_def toUpperByte_def
      string_of_rune_def Let_def char_of_def)

section \<open>The claims\<close>

text \<open>
  C1. In every session reachable from \<open>NewSession\<close> by calls of \<open>Answer\<close> and
  \<open>BringToFront\<close>, the queue has no duplicate index, no queued index is completed, the
  queued indices together with the completed ones are exactly the indices
  \<open>0, ..., len(questions) - 1\<close>, and when the queue is empty \<open>completedCount\<close> equals
  \<open>len(questions)\<close>.
\<close>

theorem queue_partition_invariant:
  assumes "reachable qs s"
  shows "Questions s = qs \<and> length (completed s) = length qs \<and>
         distinct (queue s) \<and>
         (\<forall>i \<in> set (queue s). in_range i qs \<and> \<not> completed s ! nat i) \<and>
         set (queue s) \<union> {i. in_range i qs \<and> completed s ! nat i} = {0..<int (length qs)} \<and>
         (queue s = [] \<longrightarrow> completedCount s = int (length qs))"
proof -
  from reachable_inv [OF assms] have inv: "session_inv s" and q: "Questions s = qs" by simp_all
  from inv have "length (completed s) = length (Questions s)" and "distinct (queue s)"
    and "set (queue s) = {i. in_range i (Questions s) \<and> \<not> completed s ! nat i}"
    by (simp_all add: session_inv_def)
  with q inv_queue_partition [OF inv] inv_finished_count [OF inv] show ?thesis by simp
qed

theorem queue_partition_invariant_witness:
  "reachable [sky_question] sky_done \<and> queue sky_done = [] \<and>
   completedCount sky_done = int (length [sky_question]) \<and>
   reachable [sky_question, grass_question] two_start \<and> distinct (queue two_start) \<and>
   set (queue two_start) \<union> {i. in_range i [sky_question, grass_question] \<and> completed two_start ! nat i}
     = {0..<int (length [sky_question, grass_question])}"
  using queue_partition_invariant [OF reachable_sky_done]
    queue_partition_invariant [OF reachable_two_start]
    reachable_sky_done reachable_two_start
  by (simp add: sky_done_def)

text \<open>
  C2. A session over one question with the answer key \<open>B\<close> starts with the queue
  \<open>[0]\<close> (the only permutation of one index). \<open>Answer("A")\<close> returns the result
  \<open>{A, false}\<close>, finished false and no error, and index 0 is queued again. The following
  \<open>Answer("B")\<close> returns \<open>{B, true}\<close> and finished true. After both calls
  \<open>results[0]\<close> is still \<open>{A, false}\<close>, \<open>completedCount\<close> is 1 and
  \<open>Score()\<close> returns \<open>(0, 1)\<close>.
\<close>

theorem scenario_B:
  assumes "Answer_q q = ''B''" and "isPerm (length [q]) p"
  shows "queue (NewSession [q] p) = [0] \<and>
         (\<exists>s1 s2.
            Answer (NewSession [q] p) ''A'' =
              Inr (\<lparr>UserAnswer = ''A'', Correct = False\<rparr>, False, None, s1) \<and>
            queue s1 = [0] \<and>
            Answer s1 ''B'' = Inr (\<lparr>UserAnswer = ''B'', Correct = True\<rparr>, True, None, s2) \<and>
            results s2 ! 0 = \<lparr>UserAnswer = ''A'', Correct = False\<rparr> \<and>
            completedCount s2 = 1 \<and>
            Score s2 = Inr (0, 1))"
proof -
  from isPerm_single_unique [OF assms(2)] have p: "p = [0]" .
  let ?s1 = "\<lparr>Questions = [q], attempted = [True], completed = [False],
           results = [\<lparr>UserAnswer = ''A'', Correct = False\<rparr>], queue = [0],
           completedCount = 0, attemptedCount = 1\<rparr>"
  let ?s2 = "\<lparr>Questions = [q], attempted = [True], completed = [True],
           results = [\<lparr>UserAnswer = ''A'', Correct = False\<rparr>], queue = [],
           completedCount = 1, attemptedCount = 1\<rparr>"
  have "Score ?s2 = Inr (0, 1)" by (simp add: Score_def)
  with scenario_B_first [OF assms(1)] scenario_B_second [OF assms(1)]
  have "Answer (NewSession [q] [0]) ''A'' =
              Inr (\<lparr>UserAnswer = ''A'', Correct = False\<rparr>, False, None, ?s1) \<and>
            queue ?s1 = [0] \<and>
            Answer ?s1 ''B'' = Inr (\<lparr>UserAnswer = ''B'', Correct = True\<rparr>, True, None, ?s2) \<and>
            results ?s2 ! 0 = \<lparr>UserAnswer = ''A'', Correct = False\<rparr> \<and>
            completedCount ?s2 = 1 \<and>
            Score ?s2 = Inr (0, 1)"
    by simp
  then have "\<exists>s1 s2.
            Answer (NewSession [q] [0]) ''A'' =
              Inr (\<lparr>UserAnswer = ''A'', Correct = False\<rparr>, False, None, s1) \<and>
            queue s1 = [0] \<and>
            Answer s1 ''B'' = Inr (\<lparr>UserAnswer = ''B'', Correct = True\<rparr>, True, None, s2) \<and>
            results s2 ! 0 = \<lparr>UserAnswer = ''A'', Correct = False\<rparr> \<and>
            completedCount s2 = 1 \<and>
            Score s2 = Inr (0, 1)"
    by (intro exI [of _ ?s1] exI [of _ ?s2])
  then show ?thesis by (simp add: p NewSession_def)
qed

theorem scenario_B_witness:
  "Answer_q sky_question = ''B'' \<and> isPerm (length [sky_question]) [0] \<and>
   Answer (NewSession [sky_question] [0]) ''A'' =
     Inr (\<lparr>UserAnswer = ''A'', Correct = False\<rparr>, False, None, sky_wrong) \<and>
   Answer sky_wrong ''B'' = Inr (\<lparr>UserAnswer = ''B'', Correct = True\<rparr>, True, None, sky_retried) \<and>
   (\<exists>s1 s2.
      Answer (NewSession [sky_question] [0]) ''A'' =
        Inr (\<lparr>UserAnswer = ''A'', Correct = False\<rparr>, False, None, s1) \<and>
      queue s1 = [0] \<and>
      Answer s1 ''B'' = Inr (\<lparr>UserAnswer = ''B'', Correct = True\<rparr>, True, None, s2) \<and>
      results s2 ! 0 = \<lparr>UserAnswer = ''A'', Correct = False\<rparr> \<and>
      completedCount s2 = 1 \<and>
      Score s2 = Inr (0, 1))"
proof -
  have k: "Answer_q sky_question = ''B''" by (simp add: sky_question_def)
  from scenario_B [OF k isPerm_single] k isPerm_single [of sky_question]
    sky_answer_A sky_wrong_answer_B
  show ?thesis unfolding sky_start_def by blast
qed

text \<open>
  C3. From a reachable session every sequence of calls returns, and in the session it ends in:
  an index that was attempted is still attempted and its entry of \<open>results\<close> is the one
  it had, whatever the later answers to it were; an index that was completed is still completed;
  \<open>attemptedCount\<close> and \<open>completedCount\<close> have not decreased.
\<close>

theorem first_attempt_is_final:
  assumes "reachable qs s"
  shows "\<exists>s'. run s cs = Inr s' \<and>
           (\<forall>i < length qs. attempted s ! i \<longrightarrow> attempted s' ! i \<and> results s' ! i = results s ! i) \<and>
           (\<forall>i < length qs. completed s ! i \<longrightarrow> completed s' ! i) \<and>
           attemptedCount s \<le> attemptedCount s' \<and>
           completedCount s \<le> completedCount s'"
proof -
  from reachable_inv [OF assms] have inv: "session_inv s" and q: "Questions s = qs" by simp_all
  from run_inv [OF inv, of cs] obtain s' where "run s cs = Inr s'" "progress_le s s'" by blast
  with q show ?thesis unfolding progress_le_def by blast
qed

theorem first_attempt_is_final_witness:
  "reachable [sky_question] sky_wrong \<and> attempted sky_wrong ! 0 \<and>
   run sky_wrong [CallAnswer ''B''] = Inr sky_retried \<and>
   results sky_retried ! 0 = results sky_wrong ! 0 \<and>
   results sky_retried ! 0 = \<lparr>UserAnswer = ''A'', Correct = False\<rparr> \<and>
   attemptedCount sky_wrong \<le> attemptedCount sky_retried \<and>
   completedCount sky_wrong \<le> completedCount sky_retried"
proof -
  have r: "run sky_wrong [CallAnswer ''B''] = Inr sky_retried"
    by (simp add: sky_wrong_answer_B)
  from first_attempt_is_final [OF reachable_sky_wrong, of "[CallAnswer ''B'']"]
  have "results sky_retried ! 0 = results sky_wrong ! 0 \<and>
        attemptedCount sky_wrong \<le> attemptedCount sky_retried \<and>
        completedCount sky_wrong \<le> completedCount sky_retried"
    unfolding r by (simp add: sky_wrong_def)
  with r reachable_sky_wrong show ?thesis by (simp add: sky_wrong_def)
qed

text \<open>
  C4. In a reachable session \<open>Answer\<close> returns (it does not panic), for every input string;
  the error it returns is non-nil exactly when the queue was empty at the call, and in that case
  the session is left as it was.
\<close>

theorem Answer_error_iff_finished:
  assumes "reachable qs s"
  shows "\<exists>res finished err s'. Answer s a = Inr (res, finished, err, s') \<and>
           (err \<noteq> None \<longleftrightarrow> queue s = []) \<and>
           (queue s = [] \<longrightarrow> s' = s)"
proof (cases "queue s")
  case Nil
  from Answer_empty [OF Nil, of a] Nil show ?thesis
    by (intro exI [of _ Result_zero] exI [of _ True]
        exI [of _ "Some ''quiz already completed''"] exI [of _ s]) simp
next
  case (Cons idx rest)
  from reachable_inv [OF assms] have inv: "session_inv s" by simp
  from Answer_inv_success [OF inv Cons, of a] obtain finished s'
    where "Answer s a = Inr (graded s idx a, finished, None, s')" by blast
  with Cons show ?thesis
    by (intro exI [of _ "graded s idx a"] exI [of _ finished] exI [of _ None] exI [of _ s']) simp
qed

theorem Answer_error_iff_finished_witness:
  "reachable [sky_question] sky_done \<and> reachable [sky_question, grass_question] two_start \<and>
   (\<exists>res finished err s'. Answer sky_done ''B'' = Inr (res, finished, err, s') \<and>
      err \<noteq> None \<and> s' = sky_done) \<and>
   (\<exists>res finished err s'. Answer two_start ''B'' = Inr (res, finished, err, s') \<and> err = None)"
  using Answer_error_iff_finished [OF reachable_sky_done, of "''B''"]
    Answer_error_iff_finished [OF reachable_two_start, of "''B''"]
    reachable_sky_done reachable_two_start
  by (simp add: two_start_def sky_done_def NewSession_def)

text \<open>
  C5. \<open>BringToFront(target)\<close> changes nothing when \<open>target\<close> is out of range or
  \<open>completed[target]\<close> holds. Otherwise the new queue is \<open>target\<close> followed by the old
  queue without its first occurrence of \<open>target\<close>: the other indices keep their relative
  order, and \<open>Current()\<close> returns \<open>target\<close> and its question (also when the queue was
  empty before the call).
\<close>

theorem BringToFront_moves_target_to_front:
  "(t < 0 \<or> int (length (completed s)) \<le> t \<or> completed s ! nat t \<longrightarrow> BringToFront s t = s) \<and>
   (0 \<le> t \<and> t < int (length (completed s)) \<and> \<not> completed s ! nat t \<longrightarrow>
      queue (BringToFront s t) = t # remove1 t (queue s) \<and>
      filter (\<lambda>i. i \<noteq> t) (queue (BringToFront s t)) = filter (\<lambda>i. i \<noteq> t) (queue s) \<and>
      (length (Questions s) = length (completed s) \<longrightarrow>
         Current (BringToFront s t) = Inr (t, Questions s ! nat t, True)))"
proof (intro conjI impI)
  assume "t < 0 \<or> int (length (completed s)) \<le> t \<or> completed s ! nat t"
  then show "BringToFront s t = s" by (simp add: BringToFront_noop)
next
  assume a: "0 \<le> t \<and> t < int (length (completed s)) \<and> \<not> completed s ! nat t"
  then have n: "\<not> (t < 0 \<or> t \<ge> int (length (completed s)) \<or> completed s ! nat t)" by simp
  from BringToFront_queue [OF n]
  show q: "queue (BringToFront s t) = t # remove1 t (queue s)" .
  show "filter (\<lambda>i. i \<noteq> t) (queue (BringToFront s t)) = filter (\<lambda>i. i \<noteq> t) (queue s)"
    by (simp add: q filter_remove1_other)
  assume "length (Questions s) = length (completed s)"
  with a q BringToFront_fields [of s t]
  show "Current (BringToFront s t) = Inr (t, Questions s ! nat t, True)"
    by (simp add: Current_def in_range_def)
qed

theorem BringToFront_moves_target_to_front_witness:
  "BringToFront two_start (- 1) = two_start \<and> BringToFront two_start 2 = two_start \<and>
   BringToFront sky_done 0 = sky_done \<and>
   queue two_start = [0, 1] \<and> queue (BringToFront two_start 1) = [1, 0] \<and>
   Current (BringToFront two_start 1) = Inr (1, grass_question, True)"
  using BringToFront_moves_target_to_front [of "- 1" two_start]
    BringToFront_moves_target_to_front [of 2 two_start]
    BringToFront_moves_target_to_front [of 0 sky_done]
    BringToFront_moves_target_to_front [of 1 two_start]
  by (simp add: two_start_def sky_done_def NewSession_def)

text \<open>
  C6, as stated, fails: against a question whose stored answer key is the empty string, the
  empty submission is graded correct (\<open>EqualFold("", "")\<close> holds).
\<close>

theorem empty_answer_matches_empty_key:
  "queue keyless_start \<noteq> [] \<and> TrimSpace [] = [] \<and>
   Answer keyless_start [] = Inr (\<lparr>UserAnswer = [], Correct = True\<rparr>, True, None, keyless_done)"
  by (simp add: Answer_def keyless_start_def keyless_done_def NewSession_def keyless_question_def
      in_range_def normalize_answer_def TrimSpace_empty Let_def)

text \<open>
  C6, amended. In a reachable session with a non-empty queue, an input that is empty or that
  \<open>strings.TrimSpace\<close> trims to the empty string (any sequence of white-space characters
  as defined by Unicode, lemma \<open>TrimSpace_empty_iff\<close>) gets a result whose
  \<open>userAnswer\<close> is empty and whose \<open>correct\<close> field is true exactly when the stored
  answer key of the dequeued question is the empty string: against every non-empty key the
  empty submission is incorrect.
\<close>

theorem empty_answer_graded_against_key:
  assumes "reachable qs s" and "queue s = idx # rest" and "TrimSpace answer = []"
  shows "\<exists>finished s'. Answer s answer =
           Inr (\<lparr>UserAnswer = [], Correct = (Answer_q (qs ! nat idx) = [])\<rparr>, finished, None, s')"
proof -
  from reachable_inv [OF assms(1)] have inv: "session_inv s" and q: "Questions s = qs" by simp_all
  from assms(3) q have "graded s idx answer = \<lparr>UserAnswer = [], Correct = (Answer_q (qs ! nat idx) = [])\<rparr>"
    by (simp add: graded_def normalize_answer_empty EqualFold_empty)
  with Answer_inv_success [OF inv assms(2), of answer] show ?thesis by simp
qed

theorem empty_answer_graded_against_key_witness:
  "reachable [sky_question] sky_start \<and> queue sky_start = [0] \<and>
   Answer_q ([sky_question] ! nat 0) \<noteq> [] \<and>
   TrimSpace ''  '' = [] \<and>
   (\<exists>finished s'. Answer sky_start ''  '' =
           Inr (\<lparr>UserAnswer = [], Correct = False\<rparr>, finished, None, s')) \<and>
   TrimSpace [CHR 0xC2, CHR 0xA0] = [] \<and>
   (\<exists>finished s'. Answer sky_start [CHR 0xC2, CHR 0xA0] =
           Inr (\<lparr>UserAnswer = [], Correct = False\<rparr>, finished, None, s'))"
proof -
  have q: "queue sky_start = [0]" by (simp add: sky_start_def NewSession_def)
  have k: "Answer_q ([sky_question] ! nat 0) \<noteq> []" by (simp add: sky_question_def)
  from empty_answer_graded_against_key [OF reachable_sky_start q TrimSpace_blanks] k
  have 1: "\<exists>finished s'. Answer sky_start ''  '' =
           Inr (\<lparr>UserAnswer = [], Correct = False\<rparr>, finished, None, s')"
    by simp
  from empty_answer_graded_against_key [OF reachable_sky_start q TrimSpace_nbsp] k
  have 2: "\<exists>finished s'. Answer sky_start [CHR 0xC2, CHR 0xA0] =
           Inr (\<lparr>UserAnswer = [], Correct = False\<rparr>, finished, None, s')"
    by simp
  from reachable_sky_start q k TrimSpace_blanks TrimSpace_nbsp 1 2 show ?thesis by blast
qed

text \<open>
  C7. The code departs from the claim in the \<open>userAnswer\<close> it returns. \<open>normalize\<close>
  indexes the uppercased trimmed input, which yields its first byte, returns that byte as a
  rune, and uses the rune 0 for "no answer". The input that consists of the byte NUL is not
  empty after trimming and its uppercased first character is NUL, yet the \<open>userAnswer\<close>
  returned for it is the empty string, not that character. (Lemma \<open>e_acute_answer\<close> shows the
  other effect of the same line, on an input whose first character takes two bytes.)
\<close>

theorem nul_answer_has_empty_userAnswer:
  "queue sky_start \<noteq> [] \<and> TrimSpace [CHR 0x00] = [CHR 0x00] \<and>
   [toUpperByte (hd (TrimSpace [CHR 0x00]))] = [CHR 0x00] \<and>
   Answer sky_start [CHR 0x00] = Inr (\<lparr>UserAnswer = [], Correct = False\<rparr>, False, None, sky_nul)"
  by (simp add: Answer_def sky_start_def sky_nul_def NewSession_def sky_question_def
      in_range_def normalize_answer_def TrimSpace_nul ToUpper_def toUpperByte_def
      Let_def)

text \<open>
  C8. In a reachable session \<open>Score()\<close> returns, as answered, the value of
  \<open>AttemptedCount()\<close>, which is the number of indices with \<open>attempted[i]\<close>, and as
  score the number of attempted indices whose stored result is correct. After any sequence of
  calls \<open>Score()\<close> returns again, with an answered value that is not smaller.
\<close>

theorem Score_counts_first_attempts:
  assumes "reachable qs s"
  shows "Score s = Inr (int (card {i. i < length qs \<and> attempted s ! i \<and> Correct (results s ! i)}),
                        AttemptedCount s) \<and>
         AttemptedCount s = int (card {i. i < length qs \<and> attempted s ! i}) \<and>
         (\<exists>s' score' answered'. run s cs = Inr s' \<and> Score s' = Inr (score', answered') \<and>
            AttemptedCount s \<le> answered')"
proof -
  from reachable_inv [OF assms] have inv: "session_inv s" and q: "Questions s = qs" by simp_all
  from run_inv [OF inv, of cs] obtain s' where
    s': "run s cs = Inr s'" "session_inv s'" "progress_le s s'" by blast
  from s'(3) have "attemptedCount s \<le> attemptedCount s'" by (simp add: progress_le_def)
  with s'(1) Score_inv(1) [OF s'(2)]
  have "\<exists>s' score' answered'. run s cs = Inr s' \<and> Score s' = Inr (score', answered') \<and>
            AttemptedCount s \<le> answered'"
    unfolding AttemptedCount_def by blast
  with Score_inv [OF inv] q show ?thesis by (simp add: AttemptedCount_def)
qed

theorem Score_counts_first_attempts_witness:
  "reachable [sky_question] sky_wrong \<and>
   Score sky_wrong = Inr (int (card {i. i < length [sky_question] \<and> attempted sky_wrong ! i \<and>
                                        Correct (results sky_wrong ! i)}), AttemptedCount sky_wrong) \<and>
   AttemptedCount sky_wrong = 1 \<and>
   (\<exists>s' score' answered'. run sky_wrong [CallAnswer ''B''] = Inr s' \<and>
       Score s' = Inr (score', answered') \<and> AttemptedCount sky_wrong \<le> answered')"
  using Score_counts_first_attempts [OF reachable_sky_wrong, of "[CallAnswer ''B'']"]
    reachable_sky_wrong
  by (simp add: AttemptedCount_def sky_wrong_def)

text \<open>
  C9. For every target, \<open>BringToFront\<close> leaves \<open>attempted\<close>, \<open>completed\<close>,
  \<open>results\<close>, \<open>attemptedCount\<close> and \<open>completedCount\<close> (and the questions) as they
  were; in a reachable session the queue after the call is a reordering of the queue before it.
\<close>

theorem BringToFront_frame:
  "Questions (BringToFront s t) = Questions s \<and>
   attempted (BringToFront s t) = attempted s \<and>
   completed (BringToFront s t) = completed s \<and>
   results (BringToFront s t) = results s \<and>
   attemptedCount (BringToFront s t) = attemptedCount s \<and>
   completedCount (BringToFront s t) = completedCount s \<and>
   (reachable qs s \<longrightarrow> mset (queue (BringToFront s t)) = mset (queue s))"
proof -
  have "mset (queue (BringToFront s t)) = mset (queue s)" if r: "reachable qs s"
  proof (cases "t < 0 \<or> t \<ge> int (length (completed s)) \<or> completed s ! nat t")
    case True
    then show ?thesis by (simp add: BringToFront_noop)
  next
    case False
    from reachable_inv [OF r] have inv: "session_inv s" by simp
    from False have "t \<in> set (queue s)" using inv_unfinished_in_queue [OF inv, of t] by simp
    then show ?thesis using BringToFront_queue [OF False] mset_move_front [of t "queue s"] by simp
  qed
  with BringToFront_fields [of s t] show ?thesis by simp
qed

theorem BringToFront_frame_witness:
  "reachable [sky_question, grass_question] two_start \<and>
   attempted (BringToFront two_start 1) = attempted two_start \<and>
   completed (BringToFront two_start 1) = completed two_start \<and>
   results (BringToFront two_start 1) = results two_start \<and>
   attemptedCount (BringToFront two_start 1) = attemptedCount two_start \<and>
   completedCount (BringToFront two_start 1) = completedCount two_start \<and>
   mset (queue (BringToFront two_start 1)) = mset (queue two_start)"
  using BringToFront_frame [of two_start 1 "[sky_question, grass_question]"] reachable_two_start
  by simp

text \<open>
  C10. Once a reachable session is finished (\<open>Completed()\<close> is true), it stays so: \<open>Answer\<close>
  returns the error and changes nothing, \<open>BringToFront\<close> changes nothing for any target, and
  so every sequence of calls ends in the same finished session.
\<close>

theorem finished_is_absorbing:
  assumes "reachable qs s" and "Completed s"
  shows "Answer s a = Inr (Result_zero, True, Some ''quiz already completed'', s) \<and>
         BringToFront s t = s \<and>
         (\<exists>s'. run s cs = Inr s' \<and> s' = s \<and> Completed s')"
proof -
  from reachable_inv [OF assms(1)] have inv: "session_inv s" by simp
  from assms(2) have e: "queue s = []" by (simp add: Completed_def)
  from Answer_empty [OF e] finished_BringToFront [OF inv e] finished_run [OF inv e] assms(2)
  show ?thesis by simp
qed

theorem finished_is_absorbing_witness:
  "reachable [sky_question] sky_done \<and> Completed sky_done \<and>
   Answer sky_done ''A'' = Inr (Result_zero, True, Some ''quiz already completed'', sky_done) \<and>
   BringToFront sky_done 0 = sky_done \<and>
   run sky_done [CallBringToFront 0, CallAnswer ''A'', CallAnswer ''B''] = Inr sky_done"
proof -
  have c: "Completed sky_done" by (simp add: Completed_def sky_done_def)
  from finished_is_absorbing [OF reachable_sky_done c, of "''A''" 0
      "[CallBringToFront 0, CallAnswer ''A'', CallAnswer ''B'']"] reachable_sky_done c
  show ?thesis by blast
qed

end
